theory Spec2Isabelle
  imports Main "HOL-Library.Sublist"
begin

section \<open>Text, as the script sees it\<close>

text \<open>
  The script \<^verbatim>\<open>server/scripts/analyze-frames.py\<close> works on Python \<^verbatim>\<open>str\<close> values,
  which are sequences of Unicode code points, and \<^verbatim>\<open>len\<close> counts code points. A
  character is therefore modelled by its code point and a string by the list of them.
\<close>

type_synonym codepoint = nat
type_synonym pystr = "codepoint list"

definition ascii :: "string \<Rightarrow> pystr" where
  "ascii s = map of_char s"

definition ESC :: codepoint where "ESC = 27"
definition LBRACKET :: codepoint where "LBRACKET = 91"
definition LOWER_M :: codepoint where "LOWER_M = 109"
definition LF :: codepoint where "LF = 10"
definition CR :: codepoint where "CR = 13"

section \<open>The fragment of Python's \<^verbatim>\<open>re\<close> that the script uses\<close>

text \<open>
  The only pattern is \<^verbatim>\<open>r'\x1b\[[0-9;]*m'\<close>: literal characters, one character class
  and one greedy star over that class. A pattern is a sequence of pieces; a piece is a
  single atom or a starred atom; an atom is a literal or a class given by its members
  and inclusive ranges.
\<close>

datatype atom = Lit codepoint | Cls "(codepoint \<times> codepoint) list"

datatype piece = One atom | Star atom

fun accepts :: "atom \<Rightarrow> codepoint \<Rightarrow> bool" where
  "accepts (Lit l) c = (c = l)"
| "accepts (Cls rs) c = list_ex (\<lambda>(lo, hi). lo \<le> c \<and> c \<le> hi) rs"

text \<open>
  \<open>match_here p s\<close> is the backtracking matcher anchored at the start of \<open>s\<close>: the
  length of the first match in the engine's priority order, where a star first tries
  to take one more character (greedy) and gives characters back only when the rest
  of the pattern fails.
\<close>

fun match_here :: "piece list \<Rightarrow> pystr \<Rightarrow> nat option" where
  "match_here [] s = Some 0"
| "match_here (One a # p) [] = None"
| "match_here (One a # p) (c # s) =
     (if accepts a c then map_option Suc (match_here p s) else None)"
| "match_here (Star a # p) [] = match_here p []"
| "match_here (Star a # p) (c # s) =
     (if accepts a c
      then (case match_here (Star a # p) s of
              Some n \<Rightarrow> Some (Suc n)
            | None \<Rightarrow> match_here p (c # s))
      else match_here p (c # s))"

text \<open>
  \<^verbatim>\<open>re.sub(pattern, repl, text)\<close> with a plain replacement string scans from the left;
  at each position it takes the match found there, emits the replacement and goes on
  behind the match, and otherwise copies the character. \<^verbatim>\<open>re.findall\<close> scans the same
  way and collects the matched texts. Python's extra rules for matches of length 0
  are left out: a match of length 0 is treated like no match, and the script's pattern
  has none (\<open>match_ansi_ge3\<close> below).
\<close>

fun re_sub :: "piece list \<Rightarrow> pystr \<Rightarrow> pystr \<Rightarrow> pystr" where
  "re_sub p repl [] = []"
| "re_sub p repl (c # s) =
     (case match_here p (c # s) of
        Some (Suc k) \<Rightarrow> repl @ re_sub p repl (drop k s)
      | _ \<Rightarrow> c # re_sub p repl s)"

fun re_findall :: "piece list \<Rightarrow> pystr \<Rightarrow> pystr list" where
  "re_findall p [] = []"
| "re_findall p (c # s) =
     (case match_here p (c # s) of
        Some (Suc k) \<Rightarrow> take (Suc k) (c # s) # re_findall p (drop k s)
      | _ \<Rightarrow> re_findall p s)"

text \<open>\<^verbatim>\<open>str.rstrip(chars)\<close>: drop the longest suffix made of characters in \<open>chars\<close>.\<close>

definition rstrip :: "pystr \<Rightarrow> pystr \<Rightarrow> pystr" where
  "rstrip s chars = rev (dropWhile (\<lambda>c. c \<in> set chars) (rev s))"

section \<open>The script\<close>

text \<open>The pattern \<^verbatim>\<open>r'\x1b\[[0-9;]*m'\<close>; \<^verbatim>\<open>0\<close> is 48, \<^verbatim>\<open>9\<close> is 57 and \<^verbatim>\<open>;\<close> is 59.\<close>

definition ansi_pattern :: "piece list" where
  "ansi_pattern = [One (Lit ESC), One (Lit LBRACKET), Star (Cls [(48, 57), (59, 59)]), One (Lit LOWER_M)]"

definition strip_ansi :: "pystr \<Rightarrow> pystr" where
  "strip_ansi text = re_sub ansi_pattern [] text"

text \<open>
  What the first loop of \<^verbatim>\<open>analyze_frame\<close> computes for one line before printing it:
  the Line Record of the specification. \<open>lr_index\<close> is the 1-based line number.
\<close>

record line_record =
  lr_index :: nat
  lr_raw_len :: nat
  lr_stripped :: pystr
  lr_visual_len :: nat
  lr_ansi_codes :: nat

text \<open>
  A \<^verbatim>\<open>print\<close> call of the script, with the values it formats; \<open>render\<close> below
  gives its text.
\<close>

datatype printed =
    Header pystr
  | LineReport line_record
  | WidthRange nat nat
  | Inconsistent int
  | Consistent
  | ErrorLine pystr pystr

definition line_report :: "nat \<Rightarrow> pystr \<Rightarrow> line_record" where
  "line_report i line0 =
     (let line = rstrip line0 [LF, CR];
          raw_len = length line;
          stripped = strip_ansi line;
          visual_len = length stripped;
          ansi_codes = length (re_findall ansi_pattern line)
      in \<lparr>lr_index = i, lr_raw_len = raw_len, lr_stripped = stripped,
          lr_visual_len = visual_len, lr_ansi_codes = ansi_codes\<rparr>)"

text \<open>\<^verbatim>\<open>for i, line in enumerate(lines, 1)\<close>, started with \<open>i = 1\<close>.\<close>

fun report_lines :: "nat \<Rightarrow> pystr list \<Rightarrow> printed list" where
  "report_lines i [] = []"
| "report_lines i (line # lines) = LineReport (line_report i line) # report_lines (Suc i) lines"

text \<open>The second loop: \<open>visual_widths\<close> is the accumulator that \<^verbatim>\<open>append\<close> extends.\<close>

fun collect_widths :: "pystr list \<Rightarrow> nat list \<Rightarrow> nat list" where
  "collect_widths [] visual_widths = visual_widths"
| "collect_widths (line0 # lines) visual_widths =
     (let line = rstrip line0 [LF, CR];
          stripped = strip_ansi line
      in if stripped \<noteq> []
         then collect_widths lines (visual_widths @ [length stripped])
         else collect_widths lines visual_widths)"

text \<open>
  \<^verbatim>\<open>min\<close> and \<^verbatim>\<open>max\<close> of a non-empty list keep the first extreme element met; the
  emptiness test \<^verbatim>\<open>if visual_widths:\<close> is the case distinction.
\<close>

definition width_summary :: "nat list \<Rightarrow> printed list" where
  "width_summary visual_widths =
     (case visual_widths of
        [] \<Rightarrow> []
      | w # ws \<Rightarrow>
          (let min_width = fold (\<lambda>x m. if x < m then x else m) ws w;
               max_width = fold (\<lambda>x m. if m < x then x else m) ws w
           in WidthRange min_width max_width #
              (if min_width \<noteq> max_width
               then [Inconsistent (int max_width - int min_width)]
               else [Consistent])))"

text \<open>
  The \<^verbatim>\<open>print\<close> calls that \<^verbatim>\<open>analyze_frame\<close> makes for the lines it has read, in the
  order in which it makes them: the header, one report per line, and the summary. The
  values are computed without effects, so the calls are the whole of what the
  function does after reading.
\<close>

definition analyze_lines :: "pystr \<Rightarrow> pystr list \<Rightarrow> printed list" where
  "analyze_lines filename lines =
     Header filename # report_lines 1 lines @ width_summary (collect_widths lines [])"

section \<open>The text of the output\<close>

text \<open>
  \<open>digits\<close> is \<^verbatim>\<open>str\<close> of a non-negative integer, \<open>rjust\<close> the padding of the format
  specifications \<^verbatim>\<open>2d\<close> and \<^verbatim>\<open>3d\<close>; \<open>render\<close> is the text one \<^verbatim>\<open>print\<close> call writes,
  with its final newline. The warning sign is U+26A0 U+FE0F and the check mark U+2713.
\<close>

fun digits :: "nat \<Rightarrow> pystr" where
  "digits n = (if n < 10 then [48 + n] else digits (n div 10) @ [48 + n mod 10])"

declare digits.simps [simp del]

definition str_int :: "int \<Rightarrow> pystr" where
  "str_int i = (if i < 0 then 45 # digits (nat (- i)) else digits (nat i))"

definition rjust :: "nat \<Rightarrow> pystr \<Rightarrow> pystr" where
  "rjust width s = replicate (width - length s) 32 @ s"

fun render :: "printed \<Rightarrow> pystr" where
  "render (Header filename) =
     [LF] @ ascii ''=== Analyzing '' @ filename @ ascii '' ==='' @ [LF] @ [LF]"
| "render (LineReport r) =
     ascii ''Line '' @ rjust 2 (digits (lr_index r)) @
     ascii '': raw='' @ rjust 3 (digits (lr_raw_len r)) @
     ascii '', visual='' @ rjust 3 (digits (lr_visual_len r)) @
     ascii '', ansi='' @ rjust 2 (digits (lr_ansi_codes r)) @
     ascii '' | '' @ take 60 (lr_stripped r) @ [LF]"
| "render (WidthRange min_width max_width) =
     [LF] @ ascii ''Width range: '' @ digits min_width @ ascii '' - '' @ digits max_width @
     ascii '' characters'' @ [LF]"
| "render (Inconsistent d) =
     [9888, 65039] @ ascii ''  INCONSISTENT WIDTH: '' @ str_int d @
     ascii '' character difference'' @ [LF]"
| "render Consistent = [10003] @ ascii '' Consistent width'' @ [LF]"
| "render (ErrorLine filename cause) =
     ascii ''Error analyzing '' @ filename @ ascii '': '' @ cause @ [LF]"

definition stdout_text :: "printed list \<Rightarrow> pystr" where
  "stdout_text out = concat (map render out)"

section \<open>Files, standard output and exceptions\<close>

text \<open>
  Opening and reading a file either raises or yields the list \<^verbatim>\<open>f.readlines()\<close>
  returns. An exception carries the text \<^verbatim>\<open>str(e)\<close>. All three kinds are subclasses
  of \<^verbatim>\<open>Exception\<close>.
\<close>

datatype exn = OSError pystr | UnicodeDecodeError pystr | UnicodeEncodeError pystr

fun str_exn :: "exn \<Rightarrow> pystr" where
  "str_exn (OSError m) = m"
| "str_exn (UnicodeDecodeError m) = m"
| "str_exn (UnicodeEncodeError m) = m"

type_synonym filesystem = "pystr \<Rightarrow> exn + pystr list"

text \<open>
  Standard output is a parameter: given the text written so far and the text of one
  \<^verbatim>\<open>print\<close> call, it says whether the call raises (a character the encoding of the
  stream cannot encode, a closed pipe) and with what. A call that raises writes
  nothing; a call that does not raise appends its text. The state of a run is the list
  of the calls that have written so far.
\<close>

type_synonym stdout = "pystr \<Rightarrow> pystr \<Rightarrow> exn option"

definition py_print :: "stdout \<Rightarrow> printed list \<Rightarrow> printed \<Rightarrow> printed list \<times> exn option" where
  "py_print dev out x =
     (case dev (stdout_text out) (render x) of
        Some e \<Rightarrow> (out, Some e)
      | None \<Rightarrow> (out @ [x], None))"

text \<open>A sequence of \<^verbatim>\<open>print\<close> calls stops at the first one that raises.\<close>

fun run_prints :: "stdout \<Rightarrow> printed list \<Rightarrow> printed list \<Rightarrow> printed list \<times> exn option" where
  "run_prints dev out [] = (out, None)"
| "run_prints dev out (x # xs) =
     (case py_print dev out x of
        (out', Some e) \<Rightarrow> (out', Some e)
      | (out', None) \<Rightarrow> run_prints dev out' xs)"

text \<open>
  A stream that encodes strictly raises \<^verbatim>\<open>UnicodeEncodeError\<close> for a text with a
  character outside its encoding. UTF-8 has no encoding for the surrogate code points
  U+D800 to U+DFFF, which Python puts into \<^verbatim>\<open>sys.argv\<close> for the bytes of an argument
  that are not valid in the file-system encoding.
\<close>

definition strict_stdout :: "(codepoint \<Rightarrow> bool) \<Rightarrow> pystr \<Rightarrow> stdout" where
  "strict_stdout encodable message written text =
     (if list_all encodable text then None else Some (UnicodeEncodeError message))"


text \<open>
  \<^verbatim>\<open>analyze_frame\<close>: the result is standard output afterwards and the exception that
  ended the call, if any. Opening and reading come first and can raise before
  anything is printed; each \<^verbatim>\<open>print\<close> after that can raise too, and leaves the earlier
  ones written.
\<close>

definition analyze_frame ::
    "stdout \<Rightarrow> filesystem \<Rightarrow> pystr \<Rightarrow> printed list \<Rightarrow> printed list \<times> exn option" where
  "analyze_frame dev fs filename out =
     (case fs filename of
        Inl e \<Rightarrow> (out, Some e)
      | Inr lines \<Rightarrow> run_prints dev out (analyze_lines filename lines))"

text \<open>
  The loop of the main block. \<^verbatim>\<open>except Exception as e\<close> catches every exception of
  \<^verbatim>\<open>analyze_frame\<close>; the \<^verbatim>\<open>print\<close> of the handler is not inside a \<^verbatim>\<open>try\<close>, so an
  exception it raises ends the loop and is the result of the run.
\<close>

fun main_loop ::
    "stdout \<Rightarrow> filesystem \<Rightarrow> pystr list \<Rightarrow> printed list \<Rightarrow> printed list \<times> exn option" where
  "main_loop dev fs [] out = (out, None)"
| "main_loop dev fs (filename # files) out =
     (case analyze_frame dev fs filename out of
        (out1, None) \<Rightarrow> main_loop dev fs files out1
      | (out1, Some e) \<Rightarrow>
          (case py_print dev out1 (ErrorLine filename (str_exn e)) of
             (out2, None) \<Rightarrow> main_loop dev fs files out2
           | (out2, Some e') \<Rightarrow> (out2, Some e')))"


section \<open>The escape-sequence family, in the specification's words\<close>

text \<open>
  An escape sequence is ESC, then \<^verbatim>\<open>[\<close>, then zero or more digits or semicolons,
  then \<^verbatim>\<open>m\<close>. It occurs in \<open>s\<close> at position \<open>i\<close> with length \<open>n\<close> when the \<open>n\<close>
  characters of \<open>s\<close> from \<open>i\<close> on are such a sequence.
\<close>

definition is_param :: "codepoint \<Rightarrow> bool" where
  "is_param c = (48 \<le> c \<and> c \<le> 57 \<or> c = 59)"

definition is_escape_seq :: "pystr \<Rightarrow> bool" where
  "is_escape_seq w =
     (case w of
        e # b # r \<Rightarrow> e = ESC \<and> b = LBRACKET \<and> r \<noteq> [] \<and> last r = LOWER_M \<and> list_all is_param (butlast r)
      | _ \<Rightarrow> False)"

definition occurs_at :: "pystr \<Rightarrow> nat \<Rightarrow> nat \<Rightarrow> bool" where
  "occurs_at s i n = (i + n \<le> length s \<and> is_escape_seq (take n (drop i s)))"


definition in_occurrence :: "pystr \<Rightarrow> nat \<Rightarrow> bool" where
  "in_occurrence s j = (\<exists>i\<in>{..j}. \<exists>n\<in>{..length s}. j < i + n \<and> occurs_at s i n)"

definition has_occurrence :: "pystr \<Rightarrow> bool" where
  "has_occurrence s = (\<exists>i\<in>{..length s}. \<exists>n\<in>{..length s}. occurs_at s i n)"

text \<open>
  A string given as a concatenation of segments, some of them escape sequences and the
  others text. \<open>text_runs\<close> joins the text segments that stand next to each other: one
  run before the first escape segment, one between any two, one after the last.
\<close>

datatype segment = Esc pystr | Txt pystr

fun segment_text :: "segment \<Rightarrow> pystr" where
  "segment_text (Esc w) = w"
| "segment_text (Txt u) = u"

definition flatten :: "segment list \<Rightarrow> pystr" where
  "flatten segs = concat (map segment_text segs)"

fun text_runs :: "segment list \<Rightarrow> pystr list" where
  "text_runs [] = [[]]"
| "text_runs (Esc w # segs) = [] # text_runs segs"
| "text_runs (Txt u # segs) = (u @ hd (text_runs segs)) # tl (text_runs segs)"

fun is_Esc :: "segment \<Rightarrow> bool" where
  "is_Esc (Esc w) = True"
| "is_Esc (Txt u) = False"

text \<open>The text segments joined in order, and the escape segments in order.\<close>

definition kept_text :: "segment list \<Rightarrow> pystr" where
  "kept_text segs = concat (map segment_text (filter (\<lambda>g. \<not> is_Esc g) segs))"

definition escape_segments :: "segment list \<Rightarrow> pystr list" where
  "escape_segments segs = map segment_text (filter is_Esc segs)"

section \<open>The matcher on the script's pattern\<close>

lemma accepts_params: "accepts (Cls [(48, 57), (59, 59)]) c = is_param c"
  by (auto simp: is_param_def)

lemma is_escape_seq_iff:
  "is_escape_seq w \<longleftrightarrow> (\<exists>ps. w = ESC # LBRACKET # ps @ [LOWER_M] \<and> list_all is_param ps)"
proof
  assume "is_escape_seq w"
  then obtain r where w: "w = ESC # LBRACKET # r" and r: "r \<noteq> []" "last r = LOWER_M"
    "list_all is_param (butlast r)"
    by (auto simp: is_escape_seq_def split: list.splits)
  from r have "r = butlast r @ [LOWER_M]" by (metis append_butlast_last_id)
  with w r show "\<exists>ps. w = ESC # LBRACKET # ps @ [LOWER_M] \<and> list_all is_param ps" by blast
next
  assume "\<exists>ps. w = ESC # LBRACKET # ps @ [LOWER_M] \<and> list_all is_param ps"
  then show "is_escape_seq w" by (auto simp: is_escape_seq_def)
qed

lemma star_lit_complete:
  "list_all (accepts a) ps \<Longrightarrow> \<not> accepts a l \<Longrightarrow>
   match_here [Star a, One (Lit l)] (ps @ l # t) = Some (Suc (length ps))"
  by (induction ps) auto

lemma star_lit_sound:
  "match_here [Star a, One (Lit l)] s = Some n \<Longrightarrow> \<not> accepts a l \<Longrightarrow>
   \<exists>ps t. s = ps @ l # t \<and> list_all (accepts a) ps \<and> n = Suc (length ps)"
proof (induction s arbitrary: n)
  case Nil
  then show ?case by simp
next
  case (Cons c s)
  show ?case
  proof (cases "accepts a c")
    case True
    with Cons.prems have "c \<noteq> l" by auto
    with True Cons.prems obtain m where m: "match_here [Star a, One (Lit l)] s = Some m" and n: "n = Suc m"
      by (auto split: option.splits)
    from Cons.IH [OF m Cons.prems(2)] obtain ps t where
      "s = ps @ l # t" "list_all (accepts a) ps" "m = Suc (length ps)" by blast
    with True n have "c # s = (c # ps) @ l # t \<and> list_all (accepts a) (c # ps) \<and> n = Suc (length (c # ps))"
      by simp
    then show ?thesis by blast
  next
    case False
    with Cons.prems have "c = l" "n = Suc 0" by (auto split: if_splits)
    then have "c # s = [] @ l # s \<and> list_all (accepts a) [] \<and> n = Suc (length ([] :: pystr))" by simp
    then show ?thesis by blast
  qed
qed

lemma match_ansi_Some:
  "match_here ansi_pattern s = Some n \<longleftrightarrow>
   (\<exists>ps t. s = ESC # LBRACKET # ps @ LOWER_M # t \<and> list_all is_param ps \<and> n = Suc (Suc (Suc (length ps))))"
proof -
  have nm: "\<not> accepts (Cls [(48, 57), (59, 59)]) LOWER_M" by (simp add: LOWER_M_def)
  have eq: "accepts (Cls [(48, 57), (59, 59)]) = is_param" by (rule ext) (rule accepts_params)
  show ?thesis
  proof
    assume m: "match_here ansi_pattern s = Some n"
    then obtain r k where s: "s = ESC # LBRACKET # r"
      and k: "match_here [Star (Cls [(48, 57), (59, 59)]), One (Lit LOWER_M)] r = Some k"
      and n: "n = Suc (Suc k)"
      by (cases s rule: remdups_adj.cases) (auto simp: ansi_pattern_def split: if_splits)
    from star_lit_sound [OF k nm] s n show "\<exists>ps t. s = ESC # LBRACKET # ps @ LOWER_M # t \<and> list_all is_param ps \<and> n = Suc (Suc (Suc (length ps)))"
      unfolding eq by auto
  next
    assume "\<exists>ps t. s = ESC # LBRACKET # ps @ LOWER_M # t \<and> list_all is_param ps \<and> n = Suc (Suc (Suc (length ps)))"
    then obtain ps t where s: "s = ESC # LBRACKET # ps @ LOWER_M # t" and ps: "list_all is_param ps"
      and n: "n = Suc (Suc (Suc (length ps)))" by blast
    from ps have "list_all (accepts (Cls [(48, 57), (59, 59)])) ps" unfolding eq .
    from star_lit_complete [OF this nm] show "match_here ansi_pattern s = Some n"
      unfolding s n by (simp add: ansi_pattern_def)
  qed
qed

lemma occurs_at_0:
  "occurs_at s 0 n \<longleftrightarrow>
   (\<exists>ps t. s = ESC # LBRACKET # ps @ LOWER_M # t \<and> list_all is_param ps \<and> n = Suc (Suc (Suc (length ps))))"
proof
  assume "occurs_at s 0 n"
  then obtain ps where le: "n \<le> length s" and t: "take n s = ESC # LBRACKET # ps @ [LOWER_M]"
    and ps: "list_all is_param ps"
    by (auto simp: occurs_at_def is_escape_seq_iff)
  have "s = take n s @ drop n s" by simp
  then have s: "s = ESC # LBRACKET # ps @ LOWER_M # drop n s" unfolding t by simp
  have "length (take n s) = Suc (Suc (Suc (length ps)))" unfolding t by simp
  with le have n: "n = Suc (Suc (Suc (length ps)))" by simp
  from s ps n show "\<exists>ps t. s = ESC # LBRACKET # ps @ LOWER_M # t \<and> list_all is_param ps \<and> n = Suc (Suc (Suc (length ps)))"
    by blast
next
  assume "\<exists>ps t. s = ESC # LBRACKET # ps @ LOWER_M # t \<and> list_all is_param ps \<and> n = Suc (Suc (Suc (length ps)))"
  then show "occurs_at s 0 n"
    by (auto simp: occurs_at_def is_escape_seq_iff)
qed

lemma match_ansi_iff: "match_here ansi_pattern s = Some n \<longleftrightarrow> occurs_at s 0 n"
  by (simp only: match_ansi_Some occurs_at_0)

section \<open>Occurrences of escape sequences\<close>

lemma occurs_at_bounds: "occurs_at s i n \<Longrightarrow> i \<le> length s \<and> n \<le> length s"
  by (simp add: occurs_at_def)

lemma in_occurrence_iff: "in_occurrence s j \<longleftrightarrow> (\<exists>i n. i \<le> j \<and> j < i + n \<and> occurs_at s i n)"
proof
  assume "in_occurrence s j"
  then show "\<exists>i n. i \<le> j \<and> j < i + n \<and> occurs_at s i n"
    unfolding in_occurrence_def by auto
next
  assume "\<exists>i n. i \<le> j \<and> j < i + n \<and> occurs_at s i n"
  then obtain i n where *: "i \<le> j" "j < i + n" "occurs_at s i n" by blast
  with occurs_at_bounds [OF *(3)] have "i \<in> {..j}" "n \<in> {..length s}" by simp_all
  with * show "in_occurrence s j" unfolding in_occurrence_def by blast
qed

lemma has_occurrence_iff: "has_occurrence s \<longleftrightarrow> (\<exists>i n. occurs_at s i n)"
proof
  assume "has_occurrence s"
  then show "\<exists>i n. occurs_at s i n" unfolding has_occurrence_def by auto
next
  assume "\<exists>i n. occurs_at s i n"
  then obtain i n where *: "occurs_at s i n" by blast
  with occurs_at_bounds [OF *] have "i \<in> {..length s}" "n \<in> {..length s}" by simp_all
  with * show "has_occurrence s" unfolding has_occurrence_def by blast
qed

lemma occurs_at_Cons_Suc [simp]: "occurs_at (c # s) (Suc i) n = occurs_at s i n"
  by (simp add: occurs_at_def)

lemma occurs_at_drop: "occurs_at s i n \<longleftrightarrow> occurs_at (drop i s) 0 n"
  by (cases "i \<le> length s") (auto simp: occurs_at_def is_escape_seq_def)

lemma occurs_at_append_right: "occurs_at (u @ t) (length u + i) n = occurs_at t i n"
  by (simp add: occurs_at_def)

lemma occurs_at_unique: "occurs_at s i n \<Longrightarrow> occurs_at s i m \<Longrightarrow> n = m"
  by (metis occurs_at_drop match_ansi_iff option.inject)

lemma occurs_at_whole: "is_escape_seq w \<Longrightarrow> occurs_at (w @ t) 0 (length w)"
  by (simp add: occurs_at_def)

lemma escape_seq_nth:
  assumes "is_escape_seq w"
  shows "3 \<le> length w" "w ! 0 = ESC" "0 < k \<Longrightarrow> k < length w \<Longrightarrow> w ! k \<noteq> ESC"
proof -
  from assms obtain ps where w: "w = ESC # LBRACKET # ps @ [LOWER_M]" and ps: "list_all is_param ps"
    by (auto simp: is_escape_seq_iff)
  show "3 \<le> length w" "w ! 0 = ESC" by (simp_all add: w)
  assume k: "0 < k" "k < length w"
  have "set (tl w) = insert LBRACKET (insert LOWER_M (set ps))" by (auto simp: w)
  moreover have "ESC \<notin> insert LBRACKET (insert LOWER_M (set ps))"
    using ps by (auto simp: list_all_iff is_param_def ESC_def LBRACKET_def LOWER_M_def)
  moreover have "w ! k \<in> set (tl w)"
  proof -
    from k obtain k' where k': "k = Suc k'" by (cases k) auto
    with k have "k' < length (tl w)" by simp
    then have "tl w ! k' \<in> set (tl w)" by (rule nth_mem)
    then show ?thesis by (simp add: k' w)
  qed
  ultimately show "w ! k \<noteq> ESC" by metis
qed

lemma occurs_at_nth:
  assumes "occurs_at s i n"
  shows "3 \<le> n" "s ! i = ESC" "i < k \<Longrightarrow> k < i + n \<Longrightarrow> s ! k \<noteq> ESC"
proof -
  from assms have le: "i + n \<le> length s" and e: "is_escape_seq (take n (drop i s))"
    by (auto simp: occurs_at_def)
  have len: "length (take n (drop i s)) = n" using le by simp
  from escape_seq_nth(1) [OF e] len show "3 \<le> n" by simp
  then show "s ! i = ESC" using escape_seq_nth(2) [OF e] le by simp
  assume k: "i < k" "k < i + n"
  have "0 < k - i" "k - i < length (take n (drop i s))" using k le by simp_all
  then have "take n (drop i s) ! (k - i) \<noteq> ESC"
    by (rule escape_seq_nth(3) [OF e])
  moreover have "take n (drop i s) ! (k - i) = s ! (i + (k - i))"
    using k le by simp
  moreover have "i + (k - i) = k" using k by simp
  ultimately show "s ! k \<noteq> ESC" by simp
qed

lemma occurs_at_append_cases:
  assumes w: "is_escape_seq w" and o: "occurs_at (w @ t) i n"
  shows "i = 0 \<and> n = length w \<or> length w \<le> i \<and> occurs_at t (i - length w) n"
proof -
  have whole: "occurs_at (w @ t) 0 (length w)" using w by (rule occurs_at_whole)
  show ?thesis
  proof (cases "i = 0")
    case True
    with o whole show ?thesis by (metis occurs_at_unique)
  next
    case False
    have "length w \<le> i"
    proof (rule ccontr)
      assume "\<not> length w \<le> i"
      with False have "0 < i" "i < 0 + length w" by simp_all
      from occurs_at_nth(3) [OF whole this] occurs_at_nth(2) [OF o] show False by simp
    qed
    moreover from this o have "occurs_at t (i - length w) n"
      using occurs_at_append_right [of w t "i - length w" n] by simp
    ultimately show ?thesis by simp
  qed
qed

section \<open>The scan of \<^verbatim>\<open>re.sub\<close> and \<^verbatim>\<open>re.findall\<close> on the script's pattern\<close>

lemma match_ansi_ge3: "match_here ansi_pattern s = Some n \<Longrightarrow> 3 \<le> n"
  by (auto simp: match_ansi_Some)

lemma match_ansi_None: "match_here ansi_pattern s = None \<longleftrightarrow> (\<forall>n. \<not> occurs_at s 0 n)"
  by (metis match_ansi_iff not_Some_eq)

lemma match_ansi_seq:
  assumes "is_escape_seq w"
  shows "match_here ansi_pattern (w @ t) = Some (length w)"
  using occurs_at_whole [OF assms] by (simp add: match_ansi_iff)

lemma escape_seq_Cons:
  assumes "is_escape_seq w"
  obtains r where "w = ESC # r" "length r \<ge> 2"
  using assms by (auto simp: is_escape_seq_iff)

lemma strip_ansi_Nil [simp]: "strip_ansi [] = []"
  by (simp add: strip_ansi_def)

lemma strip_ansi_seq: "is_escape_seq w \<Longrightarrow> strip_ansi (w @ t) = strip_ansi t"
proof -
  assume w: "is_escape_seq w"
  then obtain r where r: "w = ESC # r" by (rule escape_seq_Cons)
  from match_ansi_seq [OF w, of t] have "match_here ansi_pattern (ESC # r @ t) = Some (Suc (length r))"
    by (simp add: r)
  then show ?thesis by (simp add: strip_ansi_def r)
qed

lemma strip_ansi_skip: "\<forall>n. \<not> occurs_at (c # s) 0 n \<Longrightarrow> strip_ansi (c # s) = c # strip_ansi s"
  by (simp add: strip_ansi_def match_ansi_None [symmetric])

lemma findall_Nil [simp]: "re_findall ansi_pattern [] = []"
  by simp

lemma findall_seq: "is_escape_seq w \<Longrightarrow> re_findall ansi_pattern (w @ t) = w # re_findall ansi_pattern t"
proof -
  assume w: "is_escape_seq w"
  then obtain r where r: "w = ESC # r" by (rule escape_seq_Cons)
  from match_ansi_seq [OF w, of t] have "match_here ansi_pattern (ESC # r @ t) = Some (Suc (length r))"
    by (simp add: r)
  then show ?thesis by (simp add: r)
qed

lemma findall_skip:
  "\<forall>n. \<not> occurs_at (c # s) 0 n \<Longrightarrow> re_findall ansi_pattern (c # s) = re_findall ansi_pattern s"
  by (simp add: match_ansi_None [symmetric])

declare re_sub.simps(2) [simp del] re_findall.simps(2) [simp del]

lemma scan_cases:
  obtains (Nil) "s = []"
  | (Skip) c s' where "s = c # s'" "\<forall>n. \<not> occurs_at (c # s') 0 n"
  | (Seq) w t where "s = w @ t" "is_escape_seq w"
proof (cases "match_here ansi_pattern s")
  case None
  then have "\<forall>n. \<not> occurs_at s 0 n" by (simp add: match_ansi_None)
  then show ?thesis using Nil Skip by (cases s) auto
next
  case (Some n)
  then have "occurs_at s 0 n" by (simp add: match_ansi_iff)
  then have "is_escape_seq (take n s)" by (simp add: occurs_at_def)
  moreover have "s = take n s @ drop n s" by simp
  ultimately show ?thesis using Seq by blast
qed

lemma scan_induct [case_names Nil Skip Seq]:
  assumes "P []"
    and "\<And>c s. \<forall>n. \<not> occurs_at (c # s) 0 n \<Longrightarrow> P s \<Longrightarrow> P (c # s)"
    and "\<And>w t. is_escape_seq w \<Longrightarrow> P t \<Longrightarrow> P (w @ t)"
  shows "P s"
proof (induction s rule: length_induct)
  case (1 s)
  show ?case
  proof (cases s rule: scan_cases)
    case Nil
    then show ?thesis using assms(1) by simp
  next
    case (Skip c s')
    with 1 have "P s'" by simp
    with Skip assms(2) show ?thesis by simp
  next
    case (Seq w t)
    then have "length t < length s" by (auto elim: escape_seq_Cons)
    with 1 have "P t" by simp
    with Seq assms(3) show ?thesis by simp
  qed
qed

lemma strip_ansi_subseq: "subseq (strip_ansi s) s"
proof (induction s rule: scan_induct)
  case Nil
  show ?case by simp
next
  case (Skip c s)
  then show ?case by (simp add: strip_ansi_skip)
next
  case (Seq w t)
  then show ?case by (simp add: strip_ansi_seq subseq_drop_many)
qed

lemma strip_ansi_length:
  "length s = length (strip_ansi s) + sum_list (map length (re_findall ansi_pattern s))"
proof (induction s rule: scan_induct)
  case Nil
  show ?case by simp
next
  case (Skip c s)
  then show ?case by (simp add: strip_ansi_skip findall_skip)
next
  case (Seq w t)
  then show ?case by (simp add: strip_ansi_seq findall_seq)
qed

lemma findall_escape_seqs: "list_all is_escape_seq (re_findall ansi_pattern s)"
proof (induction s rule: scan_induct)
  case Nil
  show ?case by simp
next
  case (Skip c s)
  then show ?case by (simp add: findall_skip)
next
  case (Seq w t)
  then show ?case by (simp add: findall_seq)
qed

section \<open>What the scan removes\<close>

lemma in_occurrence_skip_0: "\<forall>n. \<not> occurs_at (c # s) 0 n \<Longrightarrow> \<not> in_occurrence (c # s) 0"
  by (auto simp: in_occurrence_iff)

lemma in_occurrence_skip_Suc:
  assumes "\<forall>n. \<not> occurs_at (c # s) 0 n"
  shows "in_occurrence (c # s) (Suc j) = in_occurrence s j"
proof
  assume "in_occurrence (c # s) (Suc j)"
  then obtain i n where *: "i \<le> Suc j" "Suc j < i + n" "occurs_at (c # s) i n"
    by (auto simp: in_occurrence_iff)
  with assms obtain i' where "i = Suc i'" by (cases i) auto
  with * have "i' \<le> j \<and> j < i' + n \<and> occurs_at s i' n" by simp
  then show "in_occurrence s j" unfolding in_occurrence_iff by blast
next
  assume "in_occurrence s j"
  then obtain i n where "i \<le> j" "j < i + n" "occurs_at s i n"
    by (auto simp: in_occurrence_iff)
  then have "Suc i \<le> Suc j \<and> Suc j < Suc i + n \<and> occurs_at (c # s) (Suc i) n" by simp
  then show "in_occurrence (c # s) (Suc j)" unfolding in_occurrence_iff by blast
qed

lemma in_occurrence_seq_lt:
  assumes "is_escape_seq w" "j < length w"
  shows "in_occurrence (w @ t) j"
proof -
  from assms have "0 \<le> j \<and> j < 0 + length w \<and> occurs_at (w @ t) 0 (length w)"
    by (simp add: occurs_at_whole)
  then show ?thesis unfolding in_occurrence_iff by blast
qed

lemma in_occurrence_seq_ge:
  assumes w: "is_escape_seq w"
  shows "in_occurrence (w @ t) (j + length w) = in_occurrence t j"
proof
  assume "in_occurrence (w @ t) (j + length w)"
  then obtain i n where *: "i \<le> j + length w" "j + length w < i + n" "occurs_at (w @ t) i n"
    by (auto simp: in_occurrence_iff)
  from occurs_at_append_cases [OF w *(3)] * have "length w \<le> i" "occurs_at t (i - length w) n"
    by auto
  with * have "i - length w \<le> j \<and> j < (i - length w) + n \<and> occurs_at t (i - length w) n"
    by auto
  then show "in_occurrence t j" unfolding in_occurrence_iff by blast
next
  assume "in_occurrence t j"
  then obtain i n where *: "i \<le> j" "j < i + n" "occurs_at t i n"
    by (auto simp: in_occurrence_iff)
  then have "length w + i \<le> j + length w \<and> j + length w < (length w + i) + n \<and>
             occurs_at (w @ t) (length w + i) n"
    by (simp add: occurs_at_append_right)
  then show "in_occurrence (w @ t) (j + length w)" unfolding in_occurrence_iff by blast
qed

lemma nths_none: "(\<And>j. j < length xs \<Longrightarrow> j \<notin> A) \<Longrightarrow> nths xs A = []"
proof -
  assume "\<And>j. j < length xs \<Longrightarrow> j \<notin> A"
  then have "set (nths xs A) = {}" by (auto simp: set_nths)
  then show ?thesis by simp
qed

lemma strip_ansi_nths: "strip_ansi s = nths s {j. \<not> in_occurrence s j}"
proof (induction s rule: scan_induct)
  case Nil
  show ?case by simp
next
  case (Skip c s)
  then show ?case
    by (simp add: strip_ansi_skip nths_Cons in_occurrence_skip_0 in_occurrence_skip_Suc)
next
  case (Seq w t)
  have "nths w {j. \<not> in_occurrence (w @ t) j} = []"
    by (rule nths_none) (simp add: in_occurrence_seq_lt [OF Seq(1)])
  with Seq show ?case
    by (simp add: strip_ansi_seq nths_append in_occurrence_seq_ge)
qed

lemma has_occurrence_skip:
  assumes "\<forall>n. \<not> occurs_at (c # s) 0 n"
  shows "has_occurrence (c # s) = has_occurrence s"
proof
  assume "has_occurrence (c # s)"
  then obtain i n where *: "occurs_at (c # s) i n" by (auto simp: has_occurrence_iff)
  with assms obtain i' where "i = Suc i'" by (cases i) auto
  with * show "has_occurrence s" by (auto simp: has_occurrence_iff)
next
  assume "has_occurrence s"
  then obtain i n where "occurs_at s i n" by (auto simp: has_occurrence_iff)
  then have "occurs_at (c # s) (Suc i) n" by simp
  then show "has_occurrence (c # s)" unfolding has_occurrence_iff by blast
qed

lemma has_occurrence_seq: "is_escape_seq w \<Longrightarrow> has_occurrence (w @ t)"
  unfolding has_occurrence_iff using occurs_at_whole by blast

lemma strip_ansi_length_le: "length (strip_ansi s) \<le> length s"
  using strip_ansi_length [of s] by simp

lemma strip_ansi_unchanged_iff: "strip_ansi s = s \<longleftrightarrow> \<not> has_occurrence s"
proof (induction s rule: scan_induct)
  case Nil
  show ?case by (simp add: has_occurrence_def occurs_at_def is_escape_seq_def)
next
  case (Skip c s)
  then show ?case by (simp add: strip_ansi_skip has_occurrence_skip)
next
  case (Seq w t)
  have "length (strip_ansi t) \<noteq> length (w @ t)"
    using escape_seq_nth(1) [OF Seq(1)] strip_ansi_length_le [of t]
    unfolding length_append by linarith
  then have "strip_ansi t \<noteq> w @ t" by metis
  with Seq(1) show ?case by (simp add: strip_ansi_seq has_occurrence_seq)
qed

lemma findall_empty_iff: "re_findall ansi_pattern s = [] \<longleftrightarrow> \<not> has_occurrence s"
proof (induction s rule: scan_induct)
  case Nil
  show ?case by (simp add: has_occurrence_def occurs_at_def is_escape_seq_def)
next
  case (Skip c s)
  then show ?case by (simp add: findall_skip has_occurrence_skip)
next
  case (Seq w t)
  then show ?case by (simp add: findall_seq has_occurrence_seq)
qed

lemma no_ESC_no_occurrence: "ESC \<notin> set s \<Longrightarrow> \<not> has_occurrence s"
proof
  assume n: "ESC \<notin> set s" and "has_occurrence s"
  then obtain i k where o: "occurs_at s i k" by (auto simp: has_occurrence_iff)
  from occurs_at_nth(1,2) [OF o] o have "s ! i = ESC" "i < length s"
    by (auto simp: occurs_at_def)
  with n show False by (metis nth_mem)
qed

lemma no_stray_ESC_stripped:
  "(\<forall>i<length s. s ! i = ESC \<longrightarrow> (\<exists>n. occurs_at s i n)) \<Longrightarrow> ESC \<notin> set (strip_ansi s)"
proof (induction s rule: scan_induct)
  case Nil
  show ?case by simp
next
  case (Skip c s)
  from Skip.prems [rule_format, of 0] Skip.hyps have "c \<noteq> ESC" by auto
  moreover have "\<forall>i<length s. s ! i = ESC \<longrightarrow> (\<exists>n. occurs_at s i n)"
  proof (intro allI impI)
    fix i assume "i < length s" "s ! i = ESC"
    with Skip.prems [rule_format, of "Suc i"] obtain n where "occurs_at (c # s) (Suc i) n"
      by auto
    then show "\<exists>n. occurs_at s i n" by auto
  qed
  ultimately show ?case using Skip.IH Skip.hyps by (simp add: strip_ansi_skip)
next
  case (Seq w t)
  have "\<forall>i<length t. t ! i = ESC \<longrightarrow> (\<exists>n. occurs_at t i n)"
  proof (intro allI impI)
    fix i assume "i < length t" "t ! i = ESC"
    with Seq.prems [rule_format, of "length w + i"] obtain n
      where "occurs_at (w @ t) (length w + i) n" by auto
    then show "\<exists>n. occurs_at t i n" by (auto simp: occurs_at_append_right)
  qed
  with Seq.IH Seq.hyps show ?case by (simp add: strip_ansi_seq)
qed

lemma strip_ansi_length_positions:
  "length s = length (strip_ansi s) + card {j. j < length s \<and> in_occurrence s j}"
proof -
  let ?A = "{j. j < length s \<and> \<not> in_occurrence s j}"
  let ?B = "{j. j < length s \<and> in_occurrence s j}"
  have "length (strip_ansi s) = card ?A"
    by (simp add: strip_ansi_nths length_nths)
  moreover have "?A \<union> ?B = {..<length s}" "?A \<inter> ?B = {}" by auto
  then have "card ?A + card ?B = length s"
    by (metis card_Un_disjoint card_lessThan finite_Un finite_lessThan)
  ultimately show ?thesis by simp
qed

section \<open>Strings given as segments\<close>

lemma occurs_at_prefix:
  assumes o: "occurs_at (u @ r) 0 n" and u: "u \<noteq> []" and r: "r = [] \<or> hd r = ESC"
  shows "occurs_at u 0 n"
proof (cases "n \<le> length u")
  case True
  with o show ?thesis by (simp add: occurs_at_def)
next
  case False
  with o have rn: "r \<noteq> []" by (auto simp: occurs_at_def)
  with r have "(u @ r) ! length u = ESC" by (simp add: nth_append hd_conv_nth)
  moreover from u False have "0 < length u" "length u < 0 + n" by simp_all
  from occurs_at_nth(3) [OF o this] have "(u @ r) ! length u \<noteq> ESC" .
  ultimately show ?thesis by simp
qed

lemma has_occurrence_Cons: "has_occurrence s \<Longrightarrow> has_occurrence (c # s)"
  by (metis has_occurrence_iff occurs_at_Cons_Suc)

lemma has_occurrence_suffix: "has_occurrence t \<Longrightarrow> has_occurrence (u @ t)"
  by (induction u) (auto intro: has_occurrence_Cons)

lemma text_run_kept:
  assumes "\<not> has_occurrence u" and "r = [] \<or> hd r = ESC"
  shows "strip_ansi (u @ r) = u @ strip_ansi r \<and>
         re_findall ansi_pattern (u @ r) = re_findall ansi_pattern r"
  using assms(1)
proof (induction u)
  case Nil
  show ?case by simp
next
  case (Cons c u)
  have no: "\<forall>n. \<not> occurs_at (c # (u @ r)) 0 n"
  proof (intro allI notI)
    fix n assume "occurs_at (c # (u @ r)) 0 n"
    then have "occurs_at ((c # u) @ r) 0 n" by simp
    then have "occurs_at (c # u) 0 n" by (rule occurs_at_prefix [OF _ _ assms(2)]) simp
    with Cons.prems show False unfolding has_occurrence_iff by blast
  qed
  from Cons.prems have "\<not> has_occurrence u" using has_occurrence_Cons by blast
  with Cons.IH no show ?case by (simp add: strip_ansi_skip findall_skip)
qed

lemma text_runs_nonempty: "text_runs segs \<noteq> []"
  by (induction segs rule: text_runs.induct) simp_all

lemma flatten_simps [simp]:
  "flatten [] = []"
  "flatten (g # segs) = segment_text g @ flatten segs"
  by (simp_all add: flatten_def)

lemma flatten_first_run:
  assumes "\<forall>w. Esc w \<in> set segs \<longrightarrow> is_escape_seq w"
  shows "\<exists>r. flatten segs = hd (text_runs segs) @ r \<and> (r = [] \<or> hd r = ESC)"
  using assms
proof (induction segs rule: text_runs.induct)
  case 1
  show ?case by simp
next
  case (2 w segs)
  from "2.prems" have "is_escape_seq w" by simp
  then have "hd (w @ flatten segs) = ESC" by (auto elim: escape_seq_Cons)
  then show ?case by simp
next
  case (3 u segs)
  from "3.IH" "3.prems" obtain r where "flatten segs = hd (text_runs segs) @ r" "r = [] \<or> hd r = ESC" by auto
  then show ?case by simp
qed

lemma segments_scan:
  assumes "\<forall>w. Esc w \<in> set segs \<longrightarrow> is_escape_seq w"
    and "\<forall>u\<in>set (text_runs segs). \<not> has_occurrence u"
  shows "strip_ansi (flatten segs) = kept_text segs \<and>
         re_findall ansi_pattern (flatten segs) = escape_segments segs"
  using assms
proof (induction segs rule: text_runs.induct)
  case 1
  show ?case by (simp add: kept_text_def escape_segments_def)
next
  case (2 w segs)
  from "2.prems"(1) have "is_escape_seq w" by simp
  with "2.IH" "2.prems" show ?case
    by (simp add: strip_ansi_seq findall_seq kept_text_def escape_segments_def)
next
  case (3 u segs)
  let ?h = "hd (text_runs segs)"
  from "3.prems"(1) have wf: "\<forall>w. Esc w \<in> set segs \<longrightarrow> is_escape_seq w" by simp
  from "3.prems"(2) have uh: "\<not> has_occurrence (u @ ?h)" by simp
  then have h: "\<not> has_occurrence ?h" using has_occurrence_suffix by blast
  have "set (text_runs segs) = insert ?h (set (tl (text_runs segs)))"
    using text_runs_nonempty [of segs] by (cases "text_runs segs") auto
  with "3.prems"(2) h have "\<forall>u\<in>set (text_runs segs). \<not> has_occurrence u" by simp
  with "3.IH" wf have IH: "strip_ansi (flatten segs) = kept_text segs"
    "re_findall ansi_pattern (flatten segs) = escape_segments segs" by simp_all
  from flatten_first_run [OF wf] obtain r where r: "flatten segs = ?h @ r" "r = [] \<or> hd r = ESC"
    by blast
  from text_run_kept [OF uh r(2)] text_run_kept [OF h r(2)] r(1)
  have "strip_ansi (u @ flatten segs) = u @ strip_ansi (flatten segs)"
    "re_findall ansi_pattern (u @ flatten segs) = re_findall ansi_pattern (flatten segs)"
    by simp_all
  with IH show ?case by (simp add: kept_text_def escape_segments_def)
qed

section \<open>The loops of the script\<close>

lemma collect_widths_eq:
  "collect_widths lines acc =
   acc @ map (\<lambda>l. length (strip_ansi (rstrip l [LF, CR])))
           (filter (\<lambda>l. strip_ansi (rstrip l [LF, CR]) \<noteq> []) lines)"
  by (induction lines arbitrary: acc) (simp_all add: Let_def)




lemma py_print_ok:
  "dev (stdout_text out) (render x) = None \<Longrightarrow> py_print dev out x = (out @ [x], None)"
  by (simp add: py_print_def)

lemma py_print_raises:
  "dev (stdout_text out) (render x) = Some e \<Longrightarrow> py_print dev out x = (out, Some e)"
  by (simp add: py_print_def)








lemma rstrip_split:
  "\<exists>suffix. s = rstrip s chars @ suffix \<and> set suffix \<subseteq> set chars"
proof -
  let ?P = "\<lambda>c. c \<in> set chars"
  have "rev s = takeWhile ?P (rev s) @ dropWhile ?P (rev s)" by simp
  then have "s = rev (dropWhile ?P (rev s)) @ rev (takeWhile ?P (rev s))"
    by (metis rev_append rev_rev_ident)
  moreover have "set (rev (takeWhile ?P (rev s))) \<subseteq> set chars"
    by (auto dest: set_takeWhileD)
  ultimately show ?thesis unfolding rstrip_def by blast
qed

lemma rstrip_body:
  assumes "set tail \<subseteq> set chars" and "body = [] \<or> last body \<notin> set chars"
  shows "rstrip (body @ tail) chars = body"
proof -
  let ?P = "\<lambda>c. c \<in> set chars"
  have "dropWhile ?P (rev tail @ rev body) = dropWhile ?P (rev body)"
    using assms(1) by (intro dropWhile_append2) auto
  also have "\<dots> = rev body"
    using assms(2) by (cases "rev body") (auto simp: last_rev [symmetric] simp del: last_rev)
  finally show ?thesis by (simp add: rstrip_def)
qed

lemma rstrip_end:
  "rstrip s chars = [] \<or> last (rstrip s chars) \<notin> set chars"
proof (cases "rstrip s chars = []")
  case True
  then show ?thesis by simp
next
  case False
  let ?P = "\<lambda>c. c \<in> set chars"
  from False have ne: "dropWhile ?P (rev s) \<noteq> []" by (simp add: rstrip_def)
  then have "\<not> ?P (hd (dropWhile ?P (rev s)))" by (rule hd_dropWhile)
  moreover have "last (rstrip s chars) = hd (dropWhile ?P (rev s))"
    using ne by (simp add: rstrip_def last_rev)
  ultimately show ?thesis by simp
qed

section \<open>Properties of the analyzer\<close>

lemmas script_eval = line_report_def rstrip_def strip_ansi_def ansi_pattern_def ascii_def
  ESC_def LBRACKET_def LOWER_M_def LF_def CR_def re_sub.simps re_findall.simps Let_def

text \<open>
  Claim C9. For every string, the stripped string is a subsequence of the string. So in
  every Line Record the visible length is at most the raw length, and the raw length
  is the visible length plus the total length of the escape sequences that
  \<^verbatim>\<open>re.findall\<close> matched in the line, each of which is an escape sequence; that
  total is the number of positions of the line that lie in an occurrence of an escape
  sequence.
\<close>

theorem strip_ansi_subsequence:
  "subseq (strip_ansi s) s \<and>
   lr_visual_len (line_report i line) \<le> lr_raw_len (line_report i line) \<and>
   lr_raw_len (line_report i line) =
     lr_visual_len (line_report i line) +
     sum_list (map length (re_findall ansi_pattern (rstrip line [LF, CR]))) \<and>
   list_all is_escape_seq (re_findall ansi_pattern (rstrip line [LF, CR])) \<and>
   lr_raw_len (line_report i line) =
     lr_visual_len (line_report i line) +
     card {j. j < length (rstrip line [LF, CR]) \<and> in_occurrence (rstrip line [LF, CR]) j}"
proof -
  have "length (rstrip line [LF, CR]) =
        length (strip_ansi (rstrip line [LF, CR])) +
        sum_list (map length (re_findall ansi_pattern (rstrip line [LF, CR])))"
    by (rule strip_ansi_length)
  moreover have "length (rstrip line [LF, CR]) =
        length (strip_ansi (rstrip line [LF, CR])) +
        card {j. j < length (rstrip line [LF, CR]) \<and> in_occurrence (rstrip line [LF, CR]) j}"
    by (rule strip_ansi_length_positions)
  ultimately show ?thesis
    by (simp add: line_report_def Let_def strip_ansi_subseq findall_escape_seqs)
qed

text \<open>
  Claim C3, as the code has it. For the file whose two lines are
  \<^verbatim>\<open>"\x1b[31mAB\x1b[0m\n"\<close> and \<^verbatim>\<open>"CD\n"\<close>, line 1 has raw length 11 (five characters for
  the first escape sequence, two for the text, four for the second escape sequence),
  visible text \<^verbatim>\<open>AB\<close>, visible length 2 and escape count 2; line 2 has raw length 2,
  visible length 2 and escape count 0; the width range is 2 to 2 and the verdict is
  the confirmation of a consistent width.
\<close>

theorem end_to_end_example:
  "line_report 1 (ESC # ascii ''[31mAB'' @ ESC # ascii ''[0m'' @ [LF]) =
     \<lparr>lr_index = 1, lr_raw_len = 11, lr_stripped = ascii ''AB'', lr_visual_len = 2, lr_ansi_codes = 2\<rparr> \<and>
   line_report 2 (ascii ''CD'' @ [LF]) =
     \<lparr>lr_index = 2, lr_raw_len = 2, lr_stripped = ascii ''CD'', lr_visual_len = 2, lr_ansi_codes = 0\<rparr> \<and>
   width_summary (collect_widths [ESC # ascii ''[31mAB'' @ ESC # ascii ''[0m'' @ [LF], ascii ''CD'' @ [LF]] []) =
     [WidthRange 2 2, Consistent] \<and>
   analyze_lines path [ESC # ascii ''[31mAB'' @ ESC # ascii ''[0m'' @ [LF], ascii ''CD'' @ [LF]] =
     [Header path,
      LineReport \<lparr>lr_index = 1, lr_raw_len = 11, lr_stripped = ascii ''AB'', lr_visual_len = 2, lr_ansi_codes = 2\<rparr>,
      LineReport \<lparr>lr_index = 2, lr_raw_len = 2, lr_stripped = ascii ''CD'', lr_visual_len = 2, lr_ansi_codes = 0\<rparr>,
      WidthRange 2 2, Consistent]"
  by (simp add: script_eval analyze_lines_def width_summary_def)

text \<open>
  The raw length 13 that claim C3 states for line 1 is not what the code computes:
  the four values claimed for line 1 do not hold together.
\<close>

theorem end_to_end_raw_length_13_counterexample:
  "\<not> (lr_raw_len (line_report 1 (ESC # ascii ''[31mAB'' @ ESC # ascii ''[0m'' @ [LF])) = 13 \<and>
      lr_stripped (line_report 1 (ESC # ascii ''[31mAB'' @ ESC # ascii ''[0m'' @ [LF])) = ascii ''AB'' \<and>
      lr_visual_len (line_report 1 (ESC # ascii ''[31mAB'' @ ESC # ascii ''[0m'' @ [LF])) = 2 \<and>
      lr_ansi_codes (line_report 1 (ESC # ascii ''[31mAB'' @ ESC # ascii ''[0m'' @ [LF])) = 2)"
  by (simp add: script_eval)

text \<open>
  Claim C1. For every string, the stripper returns the characters of the string at
  the positions that belong to no occurrence of an escape sequence, in their original
  order: every occurrence present in the string is removed and every other character
  is kept. A string in which no escape sequence occurs is returned unchanged.
\<close>

theorem strip_ansi_removes_occurrences:
  "strip_ansi s = nths s {j. \<not> in_occurrence s j} \<and>
   (\<not> has_occurrence s \<longrightarrow> strip_ansi s = s)"
proof (intro conjI impI)
  show "strip_ansi s = nths s {j. \<not> in_occurrence s j}" by (rule strip_ansi_nths)
next
  assume "\<not> has_occurrence s"
  then show "strip_ansi s = s" by (simp add: strip_ansi_unchanged_iff)
qed

text \<open>
  The statement of C1 at \<^verbatim>\<open>"A\x1b[0mB"\<close>, where the sequence goes and \<^verbatim>\<open>AB\<close> stays,
  and at \<^verbatim>\<open>"AB"\<close>, which has no occurrence.
\<close>

theorem strip_ansi_removes_occurrences_witness:
  "has_occurrence (ascii ''A'' @ ESC # ascii ''[0m'' @ ascii ''B'') \<and>
   strip_ansi (ascii ''A'' @ ESC # ascii ''[0m'' @ ascii ''B'') = ascii ''AB'' \<and>
   nths (ascii ''A'' @ ESC # ascii ''[0m'' @ ascii ''B'')
     {j. \<not> in_occurrence (ascii ''A'' @ ESC # ascii ''[0m'' @ ascii ''B'') j} = ascii ''AB'' \<and>
   \<not> has_occurrence (ascii ''AB'') \<and>
   strip_ansi (ascii ''AB'') = ascii ''AB''"
proof -
  let ?s = "ascii ''A'' @ ESC # ascii ''[0m'' @ ascii ''B''"
  have e: "strip_ansi ?s = ascii ''AB''" by (simp add: script_eval)
  have n: "\<not> has_occurrence (ascii ''AB'')"
    by (rule no_ESC_no_occurrence) (simp add: ascii_def ESC_def)
  note t1 = strip_ansi_removes_occurrences [of ?s]
  note t2 = strip_ansi_removes_occurrences [of "ascii ''AB''"]
  from t1 e have a: "nths ?s {j. \<not> in_occurrence ?s j} = ascii ''AB''" by metis
  have ne: "strip_ansi ?s \<noteq> ?s" by (simp add: script_eval)
  from t1 ne have b: "has_occurrence ?s" by blast
  from t2 n have c: "strip_ansi (ascii ''AB'') = ascii ''AB''" by metis
  from a b c e n show ?thesis by blast
qed

text \<open>
  Claim C5. For every string \<open>S\<close> in which no escape sequence occurs, stripping yields
  \<open>S\<close> unchanged, the visible length equals the raw length and the escape count is 0;
  so it is in the Line Record of every line whose text without its trailing newline
  characters is \<open>S\<close>.
\<close>

theorem no_escape_sequence_unchanged:
  assumes "\<not> has_occurrence S"
  shows "strip_ansi S = S \<and> length (strip_ansi S) = length S \<and>
         length (re_findall ansi_pattern S) = 0 \<and>
         (\<forall>i line. rstrip line [LF, CR] = S \<longrightarrow>
            lr_stripped (line_report i line) = S \<and>
            lr_visual_len (line_report i line) = lr_raw_len (line_report i line) \<and>
            lr_ansi_codes (line_report i line) = 0)"
proof -
  from assms have "strip_ansi S = S" "re_findall ansi_pattern S = []"
    by (simp_all add: strip_ansi_unchanged_iff findall_empty_iff)
  then show ?thesis by (simp add: line_report_def Let_def)
qed

text \<open>The statement of C5 at the line \<^verbatim>\<open>"CD\n"\<close>.\<close>

theorem no_escape_sequence_unchanged_witness:
  "\<not> has_occurrence (ascii ''CD'') \<and>
   strip_ansi (ascii ''CD'') = ascii ''CD'' \<and>
   length (strip_ansi (ascii ''CD'')) = length (ascii ''CD'') \<and>
   length (re_findall ansi_pattern (ascii ''CD'')) = 0 \<and>
   lr_stripped (line_report 2 (ascii ''CD'' @ [LF])) = ascii ''CD'' \<and>
   lr_visual_len (line_report 2 (ascii ''CD'' @ [LF])) = lr_raw_len (line_report 2 (ascii ''CD'' @ [LF])) \<and>
   lr_ansi_codes (line_report 2 (ascii ''CD'' @ [LF])) = 0"
proof -
  have n: "\<not> has_occurrence (ascii ''CD'')"
    by (rule no_ESC_no_occurrence) (simp add: ascii_def ESC_def)
  have r: "rstrip (ascii ''CD'' @ [LF]) [LF, CR] = ascii ''CD''"
    by (simp add: rstrip_def ascii_def LF_def CR_def)
  from no_escape_sequence_unchanged [OF n] r n show ?thesis by blast
qed

text \<open>
  Claim C2, as the code has it. Stripping a stripped string returns it unchanged exactly
  when the stripped string contains no occurrence of an escape sequence. That is so
  for every string in which each ESC character starts an occurrence. One pass of
  \<^verbatim>\<open>re.sub\<close> does not look again at the characters that the removal of a sequence
  brings together.
\<close>

theorem strip_ansi_idempotent_iff:
  "(strip_ansi (strip_ansi s) = strip_ansi s \<longleftrightarrow> \<not> has_occurrence (strip_ansi s)) \<and>
   ((\<forall>i<length s. s ! i = ESC \<longrightarrow> (\<exists>n. occurs_at s i n)) \<longrightarrow>
      strip_ansi (strip_ansi s) = strip_ansi s)"
proof (intro conjI impI)
  show "strip_ansi (strip_ansi s) = strip_ansi s \<longleftrightarrow> \<not> has_occurrence (strip_ansi s)"
    by (rule strip_ansi_unchanged_iff)
next
  assume "\<forall>i<length s. s ! i = ESC \<longrightarrow> (\<exists>n. occurs_at s i n)"
  then have "ESC \<notin> set (strip_ansi s)" by (rule no_stray_ESC_stripped)
  then have "\<not> has_occurrence (strip_ansi s)" by (rule no_ESC_no_occurrence)
  then show "strip_ansi (strip_ansi s) = strip_ansi s" by (simp add: strip_ansi_unchanged_iff)
qed

text \<open>
  Claim C2 as stated fails at \<^verbatim>\<open>"\x1b[\x1b[0mm"\<close>: the first pass leaves \<^verbatim>\<open>"\x1b[m"\<close>,
  the second pass leaves the empty string.
\<close>

theorem strip_ansi_not_idempotent_counterexample:
  "strip_ansi (strip_ansi (ESC # ascii ''['' @ ESC # ascii ''[0m'' @ ascii ''m'')) \<noteq>
   strip_ansi (ESC # ascii ''['' @ ESC # ascii ''[0m'' @ ascii ''m'')"
  by (simp add: script_eval)

text \<open>
  The amended C2 at \<^verbatim>\<open>"\x1b[31mAB\x1b[0m"\<close>, whose stripped form \<^verbatim>\<open>AB\<close> has no
  occurrence, and at the string above, whose stripped form has one.
\<close>

theorem strip_ansi_idempotent_iff_witness:
  "strip_ansi (ESC # ascii ''[31mAB'' @ ESC # ascii ''[0m'') = ascii ''AB'' \<and>
   \<not> has_occurrence (strip_ansi (ESC # ascii ''[31mAB'' @ ESC # ascii ''[0m'')) \<and>
   strip_ansi (strip_ansi (ESC # ascii ''[31mAB'' @ ESC # ascii ''[0m'')) =
     strip_ansi (ESC # ascii ''[31mAB'' @ ESC # ascii ''[0m'') \<and>
   has_occurrence (strip_ansi (ESC # ascii ''['' @ ESC # ascii ''[0m'' @ ascii ''m''))"
proof -
  let ?s = "ESC # ascii ''[31mAB'' @ ESC # ascii ''[0m''"
  let ?t = "ESC # ascii ''['' @ ESC # ascii ''[0m'' @ ascii ''m''"
  have e: "strip_ansi ?s = ascii ''AB''" by (simp add: script_eval)
  have "ESC \<notin> set (strip_ansi ?s)" unfolding e by (simp add: ascii_def ESC_def)
  then have n: "\<not> has_occurrence (strip_ansi ?s)" by (rule no_ESC_no_occurrence)
  from strip_ansi_idempotent_iff [of ?s, THEN conjunct1] n
  have i: "strip_ansi (strip_ansi ?s) = strip_ansi ?s" by (rule iffD2)
  have "strip_ansi (strip_ansi ?t) \<noteq> strip_ansi ?t" by (simp add: script_eval)
  with strip_ansi_idempotent_iff [of ?t, THEN conjunct1] have h: "has_occurrence (strip_ansi ?t)"
    by blast
  from e n i h show ?thesis by blast
qed

text \<open>
  Claim C4, as the code has it. Let a string be a concatenation of segments of which
  some are escape sequences and the others are text, such that no escape sequence
  occurs inside the text that stands between two escape segments (or before the first,
  or after the last). Then stripping removes exactly the escape segments and keeps
  the text in order, \<^verbatim>\<open>re.findall\<close> finds exactly the escape segments in order, and
  the escape count is their number.
\<close>

theorem segments_stripped_and_counted:
  assumes "\<forall>w. Esc w \<in> set segs \<longrightarrow> is_escape_seq w"
    and "\<forall>u\<in>set (text_runs segs). \<not> has_occurrence u"
  shows "strip_ansi (flatten segs) = kept_text segs \<and>
         re_findall ansi_pattern (flatten segs) = escape_segments segs \<and>
         length (re_findall ansi_pattern (flatten segs)) = length (filter is_Esc segs)"
  using segments_scan [OF assms] by (simp add: escape_segments_def)

text \<open>
  Claim C4 as stated lets the text segments be arbitrary. For the segments \<^verbatim>\<open>"A"\<close>,
  the escape sequence \<^verbatim>\<open>"\x1b[31m"\<close> and the text \<^verbatim>\<open>"B\x1b[0mC"\<close>, the code also removes
  the sequence inside the text and counts it: the result is not the text segments
  joined, and the escape count is not the number of escape segments.
\<close>

theorem segments_arbitrary_text_counterexample:
  "is_escape_seq (ESC # ascii ''[31m'') \<and>
   strip_ansi (flatten [Txt (ascii ''A''), Esc (ESC # ascii ''[31m''),
                        Txt (ascii ''B'' @ ESC # ascii ''[0m'' @ ascii ''C'')]) \<noteq>
   kept_text [Txt (ascii ''A''), Esc (ESC # ascii ''[31m''),
              Txt (ascii ''B'' @ ESC # ascii ''[0m'' @ ascii ''C'')] \<and>
   length (re_findall ansi_pattern
             (flatten [Txt (ascii ''A''), Esc (ESC # ascii ''[31m''),
                       Txt (ascii ''B'' @ ESC # ascii ''[0m'' @ ascii ''C'')])) \<noteq>
   length (filter is_Esc [Txt (ascii ''A''), Esc (ESC # ascii ''[31m''),
                          Txt (ascii ''B'' @ ESC # ascii ''[0m'' @ ascii ''C'')])"
  by (simp add: script_eval kept_text_def is_escape_seq_def is_param_def)

text \<open>
  The amended C4 at the segments \<^verbatim>\<open>"A"\<close>, \<^verbatim>\<open>"\x1b[31m"\<close>, \<^verbatim>\<open>"B"\<close>, \<^verbatim>\<open>"\x1b[0m"\<close>.
\<close>

theorem segments_stripped_and_counted_witness:
  "is_escape_seq (ESC # ascii ''[31m'') \<and> is_escape_seq (ESC # ascii ''[0m'') \<and>
   text_runs [Txt (ascii ''A''), Esc (ESC # ascii ''[31m''), Txt (ascii ''B''), Esc (ESC # ascii ''[0m'')] =
     [ascii ''A'', ascii ''B'', []] \<and>
   strip_ansi (flatten [Txt (ascii ''A''), Esc (ESC # ascii ''[31m''), Txt (ascii ''B''), Esc (ESC # ascii ''[0m'')]) =
     ascii ''AB'' \<and>
   length (re_findall ansi_pattern
     (flatten [Txt (ascii ''A''), Esc (ESC # ascii ''[31m''), Txt (ascii ''B''), Esc (ESC # ascii ''[0m'')])) = 2"
proof -
  let ?segs = "[Txt (ascii ''A''), Esc (ESC # ascii ''[31m''), Txt (ascii ''B''), Esc (ESC # ascii ''[0m'')]"
  have e: "is_escape_seq (ESC # ascii ''[31m'')" "is_escape_seq (ESC # ascii ''[0m'')"
    by (simp_all add: is_escape_seq_def is_param_def ascii_def LBRACKET_def LOWER_M_def)
  have t: "text_runs ?segs = [ascii ''A'', ascii ''B'', []]" by simp
  have h1: "\<forall>w. Esc w \<in> set ?segs \<longrightarrow> is_escape_seq w" using e by auto
  have h2: "\<forall>u\<in>set (text_runs ?segs). \<not> has_occurrence u"
    unfolding t by (auto intro!: no_ESC_no_occurrence simp: ascii_def ESC_def)
  from segments_stripped_and_counted [OF h1 h2]
  have "strip_ansi (flatten ?segs) = ascii ''AB''"
    "length (re_findall ansi_pattern (flatten ?segs)) = 2"
    by (simp_all add: kept_text_def escape_segments_def ascii_def)
  with e t show ?thesis by blast
qed

text \<open>
  Claim C6. For every file, the Width Sample Set is the list of the visible lengths of
  the lines whose stripped text is non-empty, in order; so the visible length of a
  line of the file is in the set exactly when the stripped text of the line is
  non-empty. When every line is empty after stripping, the set is empty and the
  output is the header and the per-line reports only: no width range, no warning and
  no confirmation.
\<close>

theorem width_samples_nonempty_lines:
  "collect_widths lines [] =
     map (\<lambda>l. length (strip_ansi (rstrip l [LF, CR])))
         (filter (\<lambda>l. strip_ansi (rstrip l [LF, CR]) \<noteq> []) lines) \<and>
   (\<forall>line\<in>set lines.
      length (strip_ansi (rstrip line [LF, CR])) \<in> set (collect_widths lines []) \<longleftrightarrow>
      strip_ansi (rstrip line [LF, CR]) \<noteq> []) \<and>
   ((\<forall>line\<in>set lines. strip_ansi (rstrip line [LF, CR]) = []) \<longrightarrow>
      collect_widths lines [] = [] \<and>
      width_summary (collect_widths lines []) = [] \<and>
      analyze_lines path lines = Header path # report_lines 1 lines)"
proof (intro conjI ballI impI)
  show eq: "collect_widths lines [] =
     map (\<lambda>l. length (strip_ansi (rstrip l [LF, CR])))
         (filter (\<lambda>l. strip_ansi (rstrip l [LF, CR]) \<noteq> []) lines)"
    by (simp add: collect_widths_eq)
  {
    fix line assume "line \<in> set lines"
    then show "length (strip_ansi (rstrip line [LF, CR])) \<in> set (collect_widths lines []) \<longleftrightarrow>
               strip_ansi (rstrip line [LF, CR]) \<noteq> []"
      unfolding eq by force
  }
  assume "\<forall>line\<in>set lines. strip_ansi (rstrip line [LF, CR]) = []"
  then have "filter (\<lambda>l. strip_ansi (rstrip l [LF, CR]) \<noteq> []) lines = []"
    by (simp add: filter_empty_conv)
  then show e: "collect_widths lines [] = []" unfolding eq by simp
  then show "width_summary (collect_widths lines []) = []" by (simp add: width_summary_def)
  with e show "analyze_lines path lines = Header path # report_lines 1 lines"
    by (simp add: analyze_lines_def)
qed

text \<open>
  The statement of C6 at a file of two lines that are empty after stripping, \<^verbatim>\<open>"\n"\<close>
  and \<^verbatim>\<open>"\x1b[0m\n"\<close>, and at a file with one non-empty line.
\<close>

theorem width_samples_nonempty_lines_witness:
  "strip_ansi (rstrip [LF] [LF, CR]) = [] \<and>
   strip_ansi (rstrip (ESC # ascii ''[0m'' @ [LF]) [LF, CR]) = [] \<and>
   collect_widths [[LF], ESC # ascii ''[0m'' @ [LF]] [] = [] \<and>
   width_summary (collect_widths [[LF], ESC # ascii ''[0m'' @ [LF]] []) = [] \<and>
   analyze_lines (ascii ''blank.ans'') [[LF], ESC # ascii ''[0m'' @ [LF]] =
     Header (ascii ''blank.ans'') # report_lines 1 [[LF], ESC # ascii ''[0m'' @ [LF]] \<and>
   collect_widths [ascii ''AB'' @ [LF], [LF]] [] = [2]"
proof -
  let ?lines = "[[LF], ESC # ascii ''[0m'' @ [LF]]"
  have a: "strip_ansi (rstrip [LF] [LF, CR]) = []"
    "strip_ansi (rstrip (ESC # ascii ''[0m'' @ [LF]) [LF, CR]) = []"
    by (simp_all add: script_eval)
  then have h: "\<forall>line\<in>set ?lines. strip_ansi (rstrip line [LF, CR]) = []" by simp
  note t = width_samples_nonempty_lines [of ?lines "ascii ''blank.ans''"]
  from t h have b: "collect_widths ?lines [] = []"
    "width_summary (collect_widths ?lines []) = []"
    "analyze_lines (ascii ''blank.ans'') ?lines = Header (ascii ''blank.ans'') # report_lines 1 ?lines"
    by blast+
  from width_samples_nonempty_lines [of "[ascii ''AB'' @ [LF], [LF]]" "[]", THEN conjunct1]
  have c: "collect_widths [ascii ''AB'' @ [LF], [LF]] [] = [2]"
    by (simp add: script_eval)
  from a b c show ?thesis by blast
qed



text \<open>
  A \<^verbatim>\<open>print\<close> inside \<^verbatim>\<open>analyze_frame\<close> can raise as well. On a standard output that
  encodes ASCII only, the check mark of the confirmation cannot be written: the file
  \<^verbatim>\<open>ok.ans\<close> is read without error, its report stops before the confirmation, and
  the handler prints an error line for it.
\<close>

lemma print_raises_inside_report:
  "main_loop (strict_stdout (\<lambda>c. c < 128) (ascii ''ordinal not in range(128)''))
             (\<lambda>p. Inr [ascii ''CD'' @ [LF]]) [ascii ''ok.ans''] [] =
     ([Header (ascii ''ok.ans''),
       LineReport \<lparr>lr_index = 1, lr_raw_len = 2, lr_stripped = ascii ''CD'', lr_visual_len = 2, lr_ansi_codes = 0\<rparr>,
       WidthRange 2 2,
       ErrorLine (ascii ''ok.ans'') (ascii ''ordinal not in range(128)'')], None)"
proof -
  have r: "analyze_lines (ascii ''ok.ans'') [ascii ''CD'' @ [LF]] =
      [Header (ascii ''ok.ans''),
       LineReport \<lparr>lr_index = 1, lr_raw_len = 2, lr_stripped = ascii ''CD'', lr_visual_len = 2, lr_ansi_codes = 0\<rparr>,
       WidthRange 2 2, Consistent]"
    by (simp add: analyze_lines_def width_summary_def script_eval)
  show ?thesis
    unfolding main_loop.simps analyze_frame_def sum.case r
    by (simp add: py_print_def strict_stdout_def rjust_def digits.simps str_int_def ascii_def
          LF_def list_all_iff)
qed




text \<open>
  Claim C10. Before a line is measured, its trailing newline and carriage-return
  characters are removed, all of them and in any combination: what is removed is a
  suffix made of these two characters only, what remains does not end in one of
  them, and a line that is a body not ending in one of them followed by any number
  of them is reduced to the body. A line ending in \<^verbatim>\<open>"\r\r\n"\<close> loses all three. The
  raw length is the length of what remains.
\<close>

theorem rstrip_trailing_newlines:
  "(\<exists>suffix. line = rstrip line [LF, CR] @ suffix \<and> set suffix \<subseteq> {LF, CR}) \<and>
   (rstrip line [LF, CR] \<noteq> [] \<longrightarrow> last (rstrip line [LF, CR]) \<notin> {LF, CR}) \<and>
   (set tail \<subseteq> {LF, CR} \<longrightarrow> (body \<noteq> [] \<longrightarrow> last body \<notin> {LF, CR}) \<longrightarrow>
      rstrip (body @ tail) [LF, CR] = body) \<and>
   rstrip (line @ [CR, CR, LF]) [LF, CR] = rstrip line [LF, CR] \<and>
   lr_raw_len (line_report i line) = length (rstrip line [LF, CR])"
proof (intro conjI impI)
  from rstrip_split [of line "[LF, CR]"]
  show "\<exists>suffix. line = rstrip line [LF, CR] @ suffix \<and> set suffix \<subseteq> {LF, CR}" by simp
next
  assume "rstrip line [LF, CR] \<noteq> []"
  with rstrip_end [of line "[LF, CR]"] show "last (rstrip line [LF, CR]) \<notin> {LF, CR}" by simp
next
  assume "set tail \<subseteq> {LF, CR}" "body \<noteq> [] \<longrightarrow> last body \<notin> {LF, CR}"
  then have "set tail \<subseteq> set [LF, CR]" "body = [] \<or> last body \<notin> set [LF, CR]" by auto
  then show "rstrip (body @ tail) [LF, CR] = body" by (rule rstrip_body)
next
  show "rstrip (line @ [CR, CR, LF]) [LF, CR] = rstrip line [LF, CR]" by (simp add: rstrip_def)
next
  show "lr_raw_len (line_report i line) = length (rstrip line [LF, CR])"
    by (simp add: line_report_def Let_def)
qed

text \<open>The statement of C10 at the line \<^verbatim>\<open>"AB\r\r\n"\<close>, whose raw length is 2.\<close>

theorem rstrip_trailing_newlines_witness:
  "set [CR, CR, LF] \<subseteq> {LF, CR} \<and> ascii ''AB'' \<noteq> [] \<and> last (ascii ''AB'') \<notin> {LF, CR} \<and>
   rstrip (ascii ''AB'' @ [CR, CR, LF]) [LF, CR] = ascii ''AB'' \<and>
   lr_raw_len (line_report 1 (ascii ''AB'' @ [CR, CR, LF])) = 2"
proof -
  have a: "set [CR, CR, LF] \<subseteq> {LF, CR}" by simp
  have b: "ascii ''AB'' \<noteq> []" "last (ascii ''AB'') \<notin> {LF, CR}"
    by (simp_all add: ascii_def LF_def CR_def)
  then have b': "ascii ''AB'' \<noteq> [] \<longrightarrow> last (ascii ''AB'') \<notin> {LF, CR}" by simp
  note t = rstrip_trailing_newlines [of "ascii ''AB'' @ [CR, CR, LF]" "[CR, CR, LF]" "ascii ''AB''" 1]
  from t a b' have c: "rstrip (ascii ''AB'' @ [CR, CR, LF]) [LF, CR] = ascii ''AB''" by blast
  from t have "lr_raw_len (line_report 1 (ascii ''AB'' @ [CR, CR, LF])) =
    length (rstrip (ascii ''AB'' @ [CR, CR, LF]) [LF, CR])" by blast
  then have d: "lr_raw_len (line_report 1 (ascii ''AB'' @ [CR, CR, LF])) = 2"
    unfolding c by (simp add: ascii_def)
  from a b c d show ?thesis by blast
qed

end
